theory Spec2Isabelle
  imports Main "HOL-Library.Word" "HOL-Library.Sublist"
begin

unbundle bit_operations_syntax

section \<open>The scull FIFO character driver (driver/scull.c)\<close>

text \<open>
  The driver keeps one global byte ring: three pointers \<open>start\<close>, \<open>end\<close> and \<open>orig\<close>
  into kernel memory, three semaphores \<open>queue_empty\<close>, \<open>queue_full\<close> and \<open>lock\<close>, and
  the two load-time parameters \<open>scull_fifo_size\<close> and \<open>scull_fifo_elemsz\<close>. The
  embedding passes this state explicitly. Pointers are addresses (integers), kernel
  memory is a function from addresses to bytes, and every \<open>printk\<close> appends its message
  to a log. The field \<open>end'\<close> is the source's \<open>end\<close>. \<open>orig\<close> is the base the
  cursors wrap back to; the file assigns it nowhere (\<open>scull_init_module\<close> sets
  \<open>start = end = fifo_array\<close> only), so every statement about the ring is made relative
  to \<open>orig\<close>. A semaphore is its count, an \<open>unsigned int\<close> in the
  \<open>struct semaphore\<close> of \<open>linux/semaphore.h\<close>, hence a 32-bit word compared without
  sign: the tests \<open>queue_full.count < 0\<close> and \<open>queue_empty.count < 0\<close> are made on such
  words.
\<close>

type_synonym addr = int
type_synonym byte = "8 word"

text \<open>The errno values that occur: the driver returns them negated.\<close>

datatype error = EFAULT | ENOTTY | EINTR

record scull_state =
  start :: addr
  end' :: addr
  orig :: addr
  queue_empty :: "32 word"
  queue_full :: "32 word"
  lock :: "32 word"
  scull_fifo_size :: int
  scull_fifo_elemsz :: int
  kmem :: "addr \<Rightarrow> byte"
  klog :: "string list"

subsection \<open>Semaphores\<close>

text \<open>
  \<open>up\<close> adds one to the count. \<open>down_interruptible\<close> takes a permit at once when the
  count is positive. Otherwise the caller sleeps: the other threads run
  (\<open>others\<close>, any function on the shared state), and the sleep ends either because a
  permit has appeared (\<open>Woken\<close>; when none has, the caller sleeps for ever and the call
  has no result) or because a signal is delivered (\<open>Signalled\<close>), in which case the
  result is \<open>-EINTR\<close> and no permit is taken.
\<close>

datatype sem = Lock | Queue_empty | Queue_full

fun sem_count :: "sem \<Rightarrow> scull_state \<Rightarrow> 32 word" where
  "sem_count Lock s = lock s"
| "sem_count Queue_empty s = queue_empty s"
| "sem_count Queue_full s = queue_full s"

fun sem_update :: "sem \<Rightarrow> (32 word \<Rightarrow> 32 word) \<Rightarrow> scull_state \<Rightarrow> scull_state" where
  "sem_update Lock f s = s\<lparr>lock := f (lock s)\<rparr>"
| "sem_update Queue_empty f s = s\<lparr>queue_empty := f (queue_empty s)\<rparr>"
| "sem_update Queue_full f s = s\<lparr>queue_full := f (queue_full s)\<rparr>"

definition up :: "sem \<Rightarrow> scull_state \<Rightarrow> scull_state" where
  "up m s = sem_update m (\<lambda>c. c + 1) s"

datatype wake = Woken | Signalled

record waiting =
  how :: wake
  others :: "scull_state \<Rightarrow> scull_state"

definition EINTR_val :: int where
  "EINTR_val = 4"

definition down_interruptible :: "sem \<Rightarrow> waiting \<Rightarrow> scull_state \<Rightarrow> (int \<times> scull_state) option" where
  "down_interruptible m w s =
     (if 0 < sem_count m s then Some (0, sem_update m (\<lambda>c. c - 1) s)
      else
        (let t = others w s in
         case how w of
           Signalled \<Rightarrow> Some (- EINTR_val, t)
         | Woken \<Rightarrow>
             if 0 < sem_count m t then Some (0, sem_update m (\<lambda>c. c - 1) t) else None))"

definition printk :: "string \<Rightarrow> scull_state \<Rightarrow> scull_state" where
  "printk msg s = s\<lparr>klog := klog s @ [msg]\<rparr>"

text \<open>
  The idiom \<open>if (down_interruptible(&m)) printk(KERN_ERR msg);\<close>, which the source
  uses at each of its six acquisitions: a failed acquisition is logged and execution
  goes on.
\<close>

definition acquire :: "sem \<Rightarrow> string \<Rightarrow> waiting \<Rightarrow> scull_state \<Rightarrow> scull_state option" where
  "acquire m msg w s =
     (case down_interruptible m w s of
        None \<Rightarrow> None
      | Some (r, t) \<Rightarrow> Some (if r \<noteq> 0 then printk msg t else t))"

definition no_lock :: string where
  "no_lock = ''Could not acquire 'lock' semaphore.''"

definition no_queue_empty :: string where
  "no_queue_empty = ''Could not acquire 'queue_empty' semaphore.''"

definition no_queue_full :: string where
  "no_queue_full = ''Could not acquire 'queue_full' semaphore.''"

text \<open>What the environment decides during one call: one entry for each acquisition.\<close>

record call_env =
  at_lock :: waiting
  at_queue :: waiting
  at_relock :: waiting

subsection \<open>The user-copy collaborators\<close>

text \<open>
  Modelled from the spec: \<open>copy_to_user\<close> and \<open>copy_from_user\<close> are the kernel's, not
  the driver's. A user buffer is the run of bytes that can be accessed at the user
  pointer: for a destination its length \<open>ubuf\<close>, for a source the bytes \<open>buf\<close>
  themselves. Both return the number of bytes that could not be copied, and (section 6
  of the specification) either all \<open>n\<close> bytes move or the call reports a fault and
  nothing moves. The kernel side is read and written linearly from the address given.
\<close>

definition store :: "(addr \<Rightarrow> byte) \<Rightarrow> addr \<Rightarrow> byte list \<Rightarrow> (addr \<Rightarrow> byte)" where
  "store m a bs = (\<lambda>x. if a \<le> x \<and> x < a + int (length bs) then bs ! nat (x - a) else m x)"

definition fetch :: "(addr \<Rightarrow> byte) \<Rightarrow> addr \<Rightarrow> nat \<Rightarrow> byte list" where
  "fetch m a n = map (\<lambda>i. m (a + int i)) [0..<n]"

definition copy_to_user :: "nat \<Rightarrow> (addr \<Rightarrow> byte) \<Rightarrow> addr \<Rightarrow> nat \<Rightarrow> nat \<times> byte list" where
  "copy_to_user ubuf m src n = (if n \<le> ubuf then (0, fetch m src n) else (n - ubuf, []))"

definition copy_from_user :: "(addr \<Rightarrow> byte) \<Rightarrow> addr \<Rightarrow> byte list \<Rightarrow> nat \<Rightarrow> nat \<times> (addr \<Rightarrow> byte)" where
  "copy_from_user m dst buf n =
     (if n \<le> length buf then (0, store m dst (take n buf)) else (n - length buf, m))"

subsection \<open>Advancing a cursor\<close>

text \<open>
  The loop \<open>while (temp < count) { if (p - orig >= scull_fifo_size) p = orig; else
  p += 1; temp += 1; }\<close> that both operations run on their cursor after a successful
  copy: \<open>count\<close> single steps.
\<close>

fun advance :: "addr \<Rightarrow> int \<Rightarrow> nat \<Rightarrow> addr \<Rightarrow> addr" where
  "advance og sz 0 p = p"
| "advance og sz (Suc n) p = advance og sz n (if sz \<le> p - og then og else p + 1)"

subsection \<open>\<open>scull_read\<close>\<close>

text \<open>
  Lines 84 to 96: take \<open>lock\<close>; when \<open>start == end\<close> release it, wait on
  \<open>queue_empty\<close> and take \<open>lock\<close> again. The test is an \<open>if\<close>: it is made once.
\<close>

definition read_entry :: "call_env \<Rightarrow> scull_state \<Rightarrow> scull_state option" where
  "read_entry env s =
     (case acquire Lock no_lock (at_lock env) s of
        None \<Rightarrow> None
      | Some s1 \<Rightarrow>
          if start s1 = end' s1 then
            (case acquire Queue_empty no_queue_empty (at_queue env) (up Lock s1) of
               None \<Rightarrow> None
             | Some s2 \<Rightarrow> acquire Lock no_lock (at_relock env) s2)
          else Some s1)"

text \<open>
  Lines 97 to 122: copy \<open>count\<close> bytes from \<open>start\<close> to the user, and on success
  advance \<open>start\<close>, release \<open>lock\<close>, post \<open>queue_full\<close> under the test
  \<open>queue_full.count < 0\<close>, and return \<open>count\<close>. The result is the return value, the bytes the user received and the
  new state.
\<close>

definition read_transfer :: "nat \<Rightarrow> nat \<Rightarrow> scull_state \<Rightarrow> (error + nat) \<times> byte list \<times> scull_state" where
  "read_transfer ubuf count s0 =
     (let s = printk ''scull read\<newline>'' s0;
          (ret, out) = copy_to_user ubuf (kmem s) (start s) count
      in if ret \<noteq> 0 then
           (let s1 = up Lock s;
                s2 = (if queue_full s1 < 0 then up Queue_full s1 else s1);
                s3 = printk ''Reading failed'' s2
            in (Inl EFAULT, out, s3))
         else
           (let s1 = s\<lparr>start := advance (orig s) (scull_fifo_size s) count (start s)\<rparr>;
                s2 = up Lock s1;
                s3 = (if queue_full s2 < 0 then up Queue_full s2 else s2)
            in (Inr count, out, s3)))"

definition scull_read :: "call_env \<Rightarrow> nat \<Rightarrow> nat \<Rightarrow> scull_state \<Rightarrow> ((error + nat) \<times> byte list \<times> scull_state) option" where
  "scull_read env ubuf count s = map_option (read_transfer ubuf count) (read_entry env s)"

subsection \<open>\<open>scull_write\<close>\<close>

text \<open>
  Lines 131 to 133: \<open>if (count > scull_fifo_elemsz) count = scull_fifo_elemsz;\<close>. The
  comparison is made in \<open>size_t\<close>, so the \<open>int\<close> parameter is converted first.
\<close>

definition to_size_t :: "int \<Rightarrow> int" where
  "to_size_t x = x mod 2 ^ 64"

definition capped :: "scull_state \<Rightarrow> nat \<Rightarrow> nat" where
  "capped s count =
     (if to_size_t (scull_fifo_elemsz s) < int count then nat (to_size_t (scull_fifo_elemsz s))
      else count)"

text \<open>
  Lines 134 to 147: take \<open>lock\<close>; when \<open>end - start\<close> is 1 or \<open>scull_fifo_size\<close>
  release it, log, wait on \<open>queue_full\<close> and take \<open>lock\<close> again.
\<close>

definition write_entry :: "call_env \<Rightarrow> scull_state \<Rightarrow> scull_state option" where
  "write_entry env s =
     (case acquire Lock no_lock (at_lock env) s of
        None \<Rightarrow> None
      | Some s1 \<Rightarrow>
          if end' s1 - start s1 = 1 \<or> end' s1 - start s1 = scull_fifo_size s1 then
            (case acquire Queue_full no_queue_full (at_queue env)
                    (printk ''Queue full, going to sleep'' (up Lock s1)) of
               None \<Rightarrow> None
             | Some s2 \<Rightarrow> acquire Lock no_lock (at_relock env) s2)
          else Some s1)"

text \<open>
  Lines 148 to 173: copy \<open>count\<close> bytes from the user to \<open>end\<close>, and on success advance
  \<open>end\<close>, release \<open>lock\<close>, post \<open>queue_empty\<close> under the test
  \<open>queue_empty.count < 0\<close>, and return \<open>count\<close>.
\<close>

definition write_transfer :: "byte list \<Rightarrow> nat \<Rightarrow> scull_state \<Rightarrow> (error + nat) \<times> scull_state" where
  "write_transfer buf count s0 =
     (let s = printk ''scull write\<newline>'' s0;
          (ret, m) = copy_from_user (kmem s) (end' s) buf count
      in if ret \<noteq> 0 then
           (let s1 = printk ''Writing failed'' s;
                s2 = up Lock s1;
                s3 = (if queue_empty s2 < 0 then up Queue_empty s2 else s2)
            in (Inl EFAULT, s3))
         else
           (let s1 = s\<lparr>kmem := m, end' := advance (orig s) (scull_fifo_size s) count (end' s)\<rparr>;
                s2 = up Lock s1;
                s3 = (if queue_empty s2 < 0 then up Queue_empty s2 else s2)
            in (Inr count, s3)))"

definition scull_write :: "call_env \<Rightarrow> byte list \<Rightarrow> nat \<Rightarrow> scull_state \<Rightarrow> ((error + nat) \<times> scull_state) option" where
  "scull_write env buf count s =
     map_option (write_transfer buf (capped s count)) (write_entry env s)"

subsection \<open>\<open>scull_ioctl\<close>\<close>

text \<open>
  The command word is decoded with the kernel's \<open>_IOC\<close> macros (number in bits 0 to 7,
  type in bits 8 to 15, size in bits 16 to 29, direction in bits 30 and 31). The
  constants of \<open>scull.h\<close> and the wrapper of \<open>access_ok_version.h\<close> are not among the
  sources, so they are parameters.
\<close>

definition IOC_NR :: "32 word \<Rightarrow> 32 word" where
  "IOC_NR cmd = cmd AND 255"

definition IOC_TYPE :: "32 word \<Rightarrow> 32 word" where
  "IOC_TYPE cmd = drop_bit 8 cmd AND 255"

definition IOC_SIZE :: "32 word \<Rightarrow> 32 word" where
  "IOC_SIZE cmd = drop_bit 16 cmd AND 16383"

definition IOC_DIR :: "32 word \<Rightarrow> 32 word" where
  "IOC_DIR cmd = drop_bit 30 cmd AND 3"

definition IOC_WRITE :: "32 word" where
  "IOC_WRITE = 1"

definition IOC_READ :: "32 word" where
  "IOC_READ = 2"

definition VERIFY_READ :: nat where
  "VERIFY_READ = 0"

definition VERIFY_WRITE :: nat where
  "VERIFY_WRITE = 1"

record scull_h =
  SCULL_IOC_MAGIC :: "32 word"
  SCULL_IOC_MAXNR :: "32 word"
  SCULL_IOCGETELEMSZ :: "32 word"

definition scull_ioctl ::
  "scull_h \<Rightarrow> (nat \<Rightarrow> 64 word \<Rightarrow> 32 word \<Rightarrow> bool) \<Rightarrow> 32 word \<Rightarrow> 64 word \<Rightarrow> scull_state
     \<Rightarrow> (error + int) \<times> scull_state" where
  "scull_ioctl h access_ok_wrapper cmd arg s =
     (if IOC_TYPE cmd \<noteq> SCULL_IOC_MAGIC h then (Inl ENOTTY, s)
      else if SCULL_IOC_MAXNR h < IOC_NR cmd then (Inl ENOTTY, s)
      else
        (let err =
               (if IOC_DIR cmd AND IOC_READ \<noteq> 0
                  then \<not> access_ok_wrapper VERIFY_WRITE arg (IOC_SIZE cmd)
                else if IOC_DIR cmd AND IOC_WRITE \<noteq> 0
                  then \<not> access_ok_wrapper VERIFY_READ arg (IOC_SIZE cmd)
                else False)
         in if err then (Inl EFAULT, s)
            else if cmd = SCULL_IOCGETELEMSZ h then (Inr (scull_fifo_elemsz s), s)
            else (Inl ENOTTY, s)))"

section \<open>The ring, seen from outside\<close>

text \<open>
  The cursor loop gives the ring \<open>scull_fifo_size + 1\<close> slots, at offsets 0 to
  \<open>scull_fifo_size\<close> from \<open>orig\<close>. \<open>occupied\<close> counts the slots from \<open>start\<close> forward to
  \<open>end\<close>, \<open>contents\<close> lists their bytes in that order, \<open>ring_inv\<close> says that both cursors
  lie in the ring, and \<open>ring_of\<close> is the part of the state that holds the ring: the
  cursors, the two parameters and the memory.
\<close>

definition occupied :: "scull_state \<Rightarrow> nat" where
  "occupied s = nat ((end' s - start s) mod (scull_fifo_size s + 1))"

definition ring_inv :: "scull_state \<Rightarrow> bool" where
  "ring_inv s \<longleftrightarrow>
     0 \<le> scull_fifo_size s \<and>
     orig s \<le> start s \<and> start s \<le> orig s + scull_fifo_size s \<and>
     orig s \<le> end' s \<and> end' s \<le> orig s + scull_fifo_size s"

definition ring_of :: "scull_state \<Rightarrow> addr \<times> addr \<times> addr \<times> int \<times> int \<times> (addr \<Rightarrow> byte)" where
  "ring_of s = (start s, end' s, orig s, scull_fifo_size s, scull_fifo_elemsz s, kmem s)"

definition ring_contents :: "addr \<Rightarrow> int \<Rightarrow> addr \<Rightarrow> addr \<Rightarrow> (addr \<Rightarrow> byte) \<Rightarrow> byte list" where
  "ring_contents og sz st en m =
     map (\<lambda>i. m (og + (st - og + int i) mod (sz + 1))) [0..<nat ((en - st) mod (sz + 1))]"

definition contents :: "scull_state \<Rightarrow> byte list" where
  "contents s = ring_contents (orig s) (scull_fifo_size s) (start s) (end' s) (kmem s)"

subsection \<open>Calls that run one at a time\<close>

text \<open>
  \<open>serial\<close> is the environment of a call during which no other thread runs: only the way
  each sleep ends is left open. A \<open>call\<close> is one such read or write with its arguments;
  \<open>exec\<close> runs it and gives the bytes a successful read handed out, the bytes a
  successful write took in, and the new state; \<open>run\<close> runs a list of calls one after the
  other and concatenates both byte sequences. A call that never returns ends the run
  without a result.
\<close>

definition alone :: "wake \<Rightarrow> waiting" where
  "alone h = \<lparr>how = h, others = (\<lambda>s. s)\<rparr>"

definition serial :: "wake \<Rightarrow> wake \<Rightarrow> wake \<Rightarrow> call_env" where
  "serial h1 h2 h3 = \<lparr>at_lock = alone h1, at_queue = alone h2, at_relock = alone h3\<rparr>"

datatype call =
  Read_call wake wake wake nat nat
| Write_call wake wake wake "byte list" nat

fun exec :: "call \<Rightarrow> scull_state \<Rightarrow> (byte list \<times> byte list \<times> scull_state) option" where
  "exec (Read_call h1 h2 h3 ubuf count) s =
     map_option (\<lambda>(r, out, t). ((case r of Inl e \<Rightarrow> [] | Inr n \<Rightarrow> out), [], t))
       (scull_read (serial h1 h2 h3) ubuf count s)"
| "exec (Write_call h1 h2 h3 buf count) s =
     map_option (\<lambda>(r, t). ([], (case r of Inl e \<Rightarrow> [] | Inr n \<Rightarrow> take n buf), t))
       (scull_write (serial h1 h2 h3) buf count s)"

fun run :: "call list \<Rightarrow> scull_state \<Rightarrow> (byte list \<times> byte list \<times> scull_state) option" where
  "run [] s = Some ([], [], s)"
| "run (c # cs) s =
     (case exec c s of
        None \<Rightarrow> None
      | Some (out1, in1, s1) \<Rightarrow>
          (case run cs s1 of
             None \<Rightarrow> None
           | Some (out2, in2, s2) \<Rightarrow> Some (out1 @ out2, in1 @ in2, s2)))"

text \<open>
  A transfer fits when it stays inside what the ring holds: a read asks for no more
  bytes than are occupied, a write (after the cap) for no more than are free, and
  neither runs past the last slot, because the copy is linear while the cursor wraps. A
  call whose copy faults moves nothing, so it fits anyway.
\<close>

fun fits :: "call \<Rightarrow> scull_state \<Rightarrow> bool" where
  "fits (Read_call h1 h2 h3 ubuf count) s =
     (ubuf < count \<or>
      (count \<le> occupied s \<and> start s - orig s + int count \<le> scull_fifo_size s + 1))"
| "fits (Write_call h1 h2 h3 buf count) s =
     (length buf < capped s count \<or>
      (int (occupied s) + int (capped s count) \<le> scull_fifo_size s \<and>
       end' s - orig s + int (capped s count) \<le> scull_fifo_size s + 1))"

fun all_fit :: "call list \<Rightarrow> scull_state \<Rightarrow> bool" where
  "all_fit [] s = True"
| "all_fit (c # cs) s =
     (fits c s \<and> (case exec c s of None \<Rightarrow> True | Some (out1, in1, s1) \<Rightarrow> all_fit cs s1))"

subsection \<open>Concrete states and runs\<close>

text \<open>
  \<open>fifo10 st en\<close> is a ring of \<open>scull_fifo_size = 10\<close> and \<open>scull_fifo_elemsz = 4\<close> with
  \<open>orig\<close> at address 0, zeroed memory, the semaphores as \<open>scull_init_module\<close> sets them
  (\<open>queue_empty = 0\<close>, \<open>queue_full = 0\<close>, \<open>lock = 1\<close>) and the cursors at \<open>st\<close> and \<open>en\<close>.
\<close>

definition fifo10 :: "addr \<Rightarrow> addr \<Rightarrow> scull_state" where
  "fifo10 st en =
     \<lparr>start = st, end' = en, orig = 0, queue_empty = 0, queue_full = 0, lock = 1,
      scull_fifo_size = 10, scull_fifo_elemsz = 4, kmem = (\<lambda>a. 0), klog = []\<rparr>"

definition wrap_calls :: "call list" where
  "wrap_calls =
     [Write_call Woken Woken Woken [1, 2] 2, Read_call Woken Woken Woken 1 1,
      Write_call Woken Woken Woken [3] 1, Read_call Woken Woken Woken 1 1,
      Read_call Woken Woken Woken 1 1]"

definition over_read_calls :: "call list" where
  "over_read_calls = [Write_call Woken Woken Woken [1] 1, Read_call Woken Woken Woken 2 2]"

section \<open>Auxiliary facts\<close>

subsection \<open>The cursor loop in closed form\<close>

lemma advance_mod:
  "0 \<le> sz \<Longrightarrow> og \<le> p \<Longrightarrow> p \<le> og + sz \<Longrightarrow>
   advance og sz n p = og + (p - og + int n) mod (sz + 1)"
proof (induction n arbitrary: p)
  case 0
  then show ?case by simp
next
  case (Suc n)
  let ?q = "if sz \<le> p - og then og else p + 1"
  have q: "og \<le> ?q" "?q \<le> og + sz" using Suc.prems by auto
  have "?q - og = (p - og + 1) mod (sz + 1)"
  proof (cases "sz \<le> p - og")
    case True
    with Suc.prems have "p - og + 1 = sz + 1" by simp
    with True show ?thesis by simp
  next
    case False
    with Suc.prems show ?thesis by simp
  qed
  then have "(?q - og + int n) mod (sz + 1) = (p - og + 1 + int n) mod (sz + 1)"
    by (simp add: mod_add_left_eq)
  with Suc.IH [OF Suc.prems(1) q] show ?case
    by (simp add: add.commute add.left_commute)
qed

lemma mod_range:
  assumes "0 \<le> (sz :: int)"
  shows "0 \<le> x mod (sz + 1)" "x mod (sz + 1) \<le> sz"
proof -
  have "0 < sz + 1" using assms by simp
  then have "0 \<le> x mod (sz + 1)" "x mod (sz + 1) < sz + 1"
    by (rule pos_mod_sign, rule pos_mod_bound)
  then show "0 \<le> x mod (sz + 1)" "x mod (sz + 1) \<le> sz" by simp_all
qed

lemma ring_inv_mod:
  assumes "0 \<le> (sz :: int)"
  shows "og \<le> og + x mod (sz + 1) \<and> og + x mod (sz + 1) \<le> og + sz"
proof -
  have "0 < sz + 1" using assms by simp
  then have "0 \<le> x mod (sz + 1)" "x mod (sz + 1) < sz + 1"
    by (rule pos_mod_sign, rule pos_mod_bound)
  then show ?thesis by simp
qed

lemma between_multiples:
  assumes "(z :: int) = M * q" "- M < z" "z < 0" "0 < M"
  shows False
proof -
  have "q < 0"
  proof (rule ccontr)
    assume "\<not> q < 0"
    then have "0 \<le> M * q" using assms(4) by simp
    with assms(1,3) show False by simp
  qed
  then have "q \<le> - 1" by simp
  then have "M * q \<le> M * (- 1)" using assms(4) by (intro mult_left_mono) simp_all
  with assms(1,2) show False by simp
qed

subsection \<open>Acquisitions and what they leave of the ring\<close>

lemma acquire_cases:
  "acquire m msg w s =
     (if 0 < sem_count m s then Some (sem_update m (\<lambda>c. c - 1) s)
      else case how w of
             Signalled \<Rightarrow> Some (printk msg (others w s))
           | Woken \<Rightarrow> if 0 < sem_count m (others w s)
                        then Some (sem_update m (\<lambda>c. c - 1) (others w s)) else None)"
  by (simp add: acquire_def down_interruptible_def EINTR_val_def Let_def split: wake.splits)

lemma ring_of_sem_update [simp]: "ring_of (sem_update m f s) = ring_of s"
  by (cases m) (simp_all add: ring_of_def)

lemma ring_of_printk [simp]: "ring_of (printk msg s) = ring_of s"
  by (simp add: ring_of_def printk_def)

lemma ring_of_up [simp]: "ring_of (up m s) = ring_of s"
  by (simp add: up_def)

lemma acquire_alone_ring:
  "acquire m msg (alone h) s = Some t \<Longrightarrow> ring_of t = ring_of s"
  by (auto simp: acquire_cases alone_def split: if_splits wake.splits)

lemma read_entry_serial_ring:
  assumes "read_entry (serial h1 h2 h3) s = Some t"
  shows "ring_of t = ring_of s"
proof -
  obtain s1 where s1: "acquire Lock no_lock (alone h1) s = Some s1"
    using assms by (auto simp: read_entry_def serial_def split: option.splits)
  have r1: "ring_of s1 = ring_of s" by (rule acquire_alone_ring [OF s1])
  show ?thesis
  proof (cases "start s1 = end' s1")
    case False
    with assms s1 have "t = s1" by (simp add: read_entry_def serial_def)
    with r1 show ?thesis by simp
  next
    case True
    with assms s1 obtain s2 where
      s2: "acquire Queue_empty no_queue_empty (alone h2) (up Lock s1) = Some s2" and
      t: "acquire Lock no_lock (alone h3) s2 = Some t"
      by (auto simp: read_entry_def serial_def split: option.splits)
    from acquire_alone_ring [OF s2] acquire_alone_ring [OF t] r1 show ?thesis by simp
  qed
qed

lemma write_entry_serial_ring:
  assumes "write_entry (serial h1 h2 h3) s = Some t"
  shows "ring_of t = ring_of s"
proof -
  obtain s1 where s1: "acquire Lock no_lock (alone h1) s = Some s1"
    using assms by (auto simp: write_entry_def serial_def split: option.splits)
  have r1: "ring_of s1 = ring_of s" by (rule acquire_alone_ring [OF s1])
  show ?thesis
  proof (cases "end' s1 - start s1 = 1 \<or> end' s1 - start s1 = scull_fifo_size s1")
    case False
    with assms s1 have "t = s1" by (simp add: write_entry_def serial_def)
    with r1 show ?thesis by simp
  next
    case True
    with assms s1 obtain s2 where
      s2: "acquire Queue_full no_queue_full (alone h2)
             (printk ''Queue full, going to sleep'' (up Lock s1)) = Some s2" and
      t: "acquire Lock no_lock (alone h3) s2 = Some t"
      by (auto simp: write_entry_def serial_def split: option.splits)
    from acquire_alone_ring [OF s2] acquire_alone_ring [OF t] r1 show ?thesis by simp
  qed
qed

subsection \<open>The two transfers, written out\<close>

text \<open>
  An unsigned count is never below zero, so neither conditional post is ever taken.
\<close>

lemma read_transfer_result:
  "read_transfer ubuf count s =
     (if count \<le> ubuf
      then (Inr count, fetch (kmem s) (start s) count,
            s\<lparr>start := advance (orig s) (scull_fifo_size s) count (start s),
              lock := lock s + 1, klog := klog s @ [''scull read\<newline>'']\<rparr>)
      else (Inl EFAULT, [],
            s\<lparr>lock := lock s + 1,
              klog := klog s @ [''scull read\<newline>'', ''Reading failed'']\<rparr>))"
  by (simp add: read_transfer_def copy_to_user_def printk_def up_def Let_def)

lemma write_transfer_result:
  "write_transfer buf count s =
     (if count \<le> length buf
      then (Inr count,
            s\<lparr>end' := advance (orig s) (scull_fifo_size s) count (end' s),
              kmem := store (kmem s) (end' s) (take count buf),
              lock := lock s + 1, klog := klog s @ [''scull write\<newline>'']\<rparr>)
      else (Inl EFAULT,
            s\<lparr>lock := lock s + 1,
              klog := klog s @ [''scull write\<newline>'', ''Writing failed'']\<rparr>))"
  by (simp add: write_transfer_def copy_from_user_def printk_def up_def Let_def)

lemma scull_read_via_entry:
  "read_entry env s = Some s1 \<Longrightarrow> scull_read env ubuf count s = Some (read_transfer ubuf count s1)"
  by (simp add: scull_read_def)

lemma scull_write_via_entry:
  "write_entry env s = Some s1 \<Longrightarrow>
   scull_write env buf count s = Some (write_transfer buf (capped s count) s1)"
  by (simp add: scull_write_def)

lemma ring_ofD:
  "ring_of t = ring_of s \<Longrightarrow>
   start t = start s \<and> end' t = end' s \<and> orig t = orig s \<and>
   scull_fifo_size t = scull_fifo_size s \<and> scull_fifo_elemsz t = scull_fifo_elemsz s \<and>
   kmem t = kmem s"
  by (simp add: ring_of_def)

lemma length_fetch [simp]: "length (fetch m a n) = n"
  by (simp add: fetch_def)

lemma ring_inv_cong: "ring_of t = ring_of s \<Longrightarrow> ring_inv t = ring_inv s"
  by (simp add: ring_inv_def ring_of_def)

lemma contents_cong: "ring_of t = ring_of s \<Longrightarrow> contents t = contents s"
  by (simp add: contents_def ring_of_def)

lemma occupied_cong: "ring_of t = ring_of s \<Longrightarrow> occupied t = occupied s"
  by (simp add: occupied_def ring_of_def)

lemma ring_of_read_fault:
  "ubuf < count \<Longrightarrow> ring_of (snd (snd (read_transfer ubuf count s))) = ring_of s"
  by (simp add: read_transfer_result ring_of_def Let_def)

lemma ring_of_write_fault:
  "length buf < n \<Longrightarrow> ring_of (snd (write_transfer buf n s)) = ring_of s"
  by (simp add: write_transfer_result ring_of_def Let_def)

lemma fetch_store:
  "fetch (store m a bs) a (length bs) = bs"
  by (rule nth_equalityI) (simp_all add: fetch_def store_def)

lemma capped_over:
  assumes "0 \<le> scull_fifo_elemsz s" "scull_fifo_elemsz s < 2 ^ 31" "0 < k"
  shows "capped s (nat (scull_fifo_elemsz s) + k) = nat (scull_fifo_elemsz s)"
proof -
  have "scull_fifo_elemsz s mod 2 ^ 64 = scull_fifo_elemsz s"
    using assms(1,2) by simp
  then show ?thesis using assms by (simp add: capped_def to_size_t_def)
qed

lemma read_entry_signalled:
  assumes "how (at_lock env) = Signalled" "how (at_queue env) = Signalled"
    "how (at_relock env) = Signalled"
  shows "read_entry env s \<noteq> None"
  using assms by (simp add: read_entry_def acquire_cases split: option.splits)

lemma write_entry_signalled:
  assumes "how (at_lock env) = Signalled" "how (at_queue env) = Signalled"
    "how (at_relock env) = Signalled"
  shows "write_entry env s \<noteq> None"
  using assms by (simp add: write_entry_def acquire_cases split: option.splits)

subsection \<open>The contents of the ring under a read and under a write\<close>

lemma length_ring_contents [simp]:
  "length (ring_contents og sz st en m) = nat ((en - st) mod (sz + 1))"
  by (simp add: ring_contents_def)

lemma ring_contents_read:
  assumes sz: "0 \<le> sz" and st: "og \<le> st"
    and n: "int n \<le> (en - st) mod (sz + 1)" and lin: "st - og + int n \<le> sz + 1"
  shows "fetch m st n = take n (ring_contents og sz st en m)"
    and "ring_contents og sz (og + (st - og + int n) mod (sz + 1)) en m =
         drop n (ring_contents og sz st en m)"
proof -
  let ?M = "sz + 1"
  let ?occ = "(en - st) mod ?M"
  have n': "n \<le> nat ?occ" using n by simp
  show "fetch m st n = take n (ring_contents og sz st en m)"
  proof (rule nth_equalityI)
    show "length (fetch m st n) = length (take n (ring_contents og sz st en m))"
      using n' by simp
  next
    fix i assume "i < length (fetch m st n)"
    then have i: "i < n" by simp
    then have "0 \<le> st - og + int i" "st - og + int i < ?M" using st lin by simp_all
    then have "(st - og + int i) mod ?M = st - og + int i" by simp
    then show "fetch m st n ! i = take n (ring_contents og sz st en m) ! i"
      using i n' by (simp add: fetch_def ring_contents_def)
  qed
  have len: "(en - (og + (st - og + int n) mod ?M)) mod ?M = ?occ - int n"
  proof -
    have "(en - (og + (st - og + int n) mod ?M)) mod ?M =
          ((en - og) - (st - og + int n) mod ?M) mod ?M"
      by (simp add: algebra_simps)
    also have "\<dots> = ((en - og) - (st - og + int n)) mod ?M"
      by (simp add: mod_diff_right_eq)
    also have "\<dots> = ((en - st) - int n) mod ?M"
      by (simp add: algebra_simps)
    also have "\<dots> = (?occ - int n) mod ?M"
      by (simp add: mod_diff_left_eq)
    also have "\<dots> = ?occ - int n"
      using n mod_range [OF sz, of "en - st"] by simp
    finally show ?thesis .
  qed
  show "ring_contents og sz (og + (st - og + int n) mod ?M) en m =
        drop n (ring_contents og sz st en m)"
  proof (rule nth_equalityI)
    show "length (ring_contents og sz (og + (st - og + int n) mod ?M) en m) =
          length (drop n (ring_contents og sz st en m))"
      using len n by (simp add: nat_diff_distrib')
  next
    fix i assume "i < length (ring_contents og sz (og + (st - og + int n) mod ?M) en m)"
    then have i: "int i < ?occ - int n" using len by simp
    then have i': "n + i < nat ?occ" and i2: "i < nat (?occ - int n)" by simp_all
    have "((st - og + int n) mod ?M + int i) mod ?M = (st - og + int n + int i) mod ?M"
      by (rule mod_add_left_eq)
    also have "st - og + int n + int i = st - og + int (n + i)" by simp
    finally have "((st - og + int n) mod ?M + int i) mod ?M = (st - og + int (n + i)) mod ?M" .
    then show "ring_contents og sz (og + (st - og + int n) mod ?M) en m ! i =
               drop n (ring_contents og sz st en m) ! i"
      using i' i2 len by (simp add: ring_contents_def)
  qed
qed

lemma ring_contents_write:
  assumes sz: "0 \<le> sz" and st: "og \<le> st" and en: "og \<le> en"
    and room: "(en - st) mod (sz + 1) + int (length d) \<le> sz"
    and lin: "en - og + int (length d) \<le> sz + 1"
  shows "ring_contents og sz st (og + (en - og + int (length d)) mod (sz + 1)) (store m en d) =
         ring_contents og sz st en m @ d"
proof -
  let ?M = "sz + 1"
  let ?occ = "(en - st) mod ?M"
  let ?c = "int (length d)"
  have M: "0 < ?M" using sz by simp
  note occ = mod_range [OF sz, of "en - st"]
  have len: "(og + (en - og + ?c) mod ?M - st) mod ?M = ?occ + ?c"
  proof -
    have "(og + (en - og + ?c) mod ?M - st) mod ?M = ((en - og + ?c) mod ?M + (og - st)) mod ?M"
      by (simp add: algebra_simps)
    also have "\<dots> = ((en - og + ?c) + (og - st)) mod ?M"
      by (rule mod_add_left_eq)
    also have "(en - og + ?c) + (og - st) = (en - st) + ?c" by simp
    also have "((en - st) + ?c) mod ?M = (?occ + ?c) mod ?M"
      by (simp add: mod_add_left_eq)
    also have "\<dots> = ?occ + ?c"
      using occ room by simp
    finally show ?thesis .
  qed
  show ?thesis
  proof (rule nth_equalityI)
    show "length (ring_contents og sz st (og + (en - og + ?c) mod ?M) (store m en d)) =
          length (ring_contents og sz st en m @ d)"
      using len occ by (simp add: nat_add_distrib)
  next
    fix i
    assume "i < length (ring_contents og sz st (og + (en - og + ?c) mod ?M) (store m en d))"
    then have i: "int i < ?occ + ?c" and i1: "i < nat (?occ + ?c)" using len by simp_all
    let ?p = "(st - og + int i) mod ?M"
    have lhs: "ring_contents og sz st (og + (en - og + ?c) mod ?M) (store m en d) ! i =
               store m en d (og + ?p)"
      using i1 len by (simp add: ring_contents_def)
    show "ring_contents og sz st (og + (en - og + ?c) mod ?M) (store m en d) ! i =
          (ring_contents og sz st en m @ d) ! i"
    proof (cases "int i < ?occ")
      case True
      then have i2: "i < nat ?occ" by simp
      have out: "\<not> (en \<le> og + ?p \<and> og + ?p < en + ?c)"
      proof
        assume a: "en \<le> og + ?p \<and> og + ?p < en + ?c"
        define z where "z = int i + (en - og) - ?p - ?occ"
        have "(st - og + int i) - ?p = ?M * ((st - og + int i) div ?M)"
          by (rule minus_mod_eq_mult_div)
        moreover have "(en - st) - ?occ = ?M * ((en - st) div ?M)"
          by (rule minus_mod_eq_mult_div)
        ultimately have "z = ?M * ((st - og + int i) div ?M + (en - st) div ?M)"
          unfolding z_def by (simp add: algebra_simps)
        moreover have "z < 0" unfolding z_def using True a by simp
        moreover have "- ?M < z" unfolding z_def using a room by simp
        ultimately show False using between_multiples M by blast
      qed
      then have "store m en d (og + ?p) = m (og + ?p)"
        unfolding store_def by (rule if_not_P)
      then show ?thesis
        using lhs i2 by (simp add: nth_append ring_contents_def)
    next
      case False
      define j where "j = i - nat ?occ"
      have j: "int j = int i - ?occ" "j < length d"
        using False i occ by (simp_all add: j_def)
      have cpos: "1 \<le> ?c" using j(2) by linarith
      have ge: "0 \<le> en - og" using en by simp
      have lt: "en - og < ?M" using lin cpos by linarith
      have "(st - og + ?occ) mod ?M = (st - og + (en - st)) mod ?M"
        by (rule mod_add_right_eq)
      also have "\<dots> = (en - og) mod ?M" by simp
      also have "\<dots> = en - og" by (rule mod_pos_pos_trivial [OF ge lt])
      finally have base: "(st - og + ?occ) mod ?M = en - og" .
      have "st - og + int i = st - og + ?occ + int j" using j(1) by linarith
      then have "?p = (st - og + ?occ + int j) mod ?M" by (rule arg_cong)
      also have "\<dots> = ((st - og + ?occ) mod ?M + int j) mod ?M"
        by (rule mod_add_left_eq [symmetric])
      also have "\<dots> = (en - og + int j) mod ?M" using base by (rule arg_cong)
      also have "\<dots> = en - og + int j"
      proof (rule mod_pos_pos_trivial)
        show "0 \<le> en - og + int j" using ge by simp
        show "en - og + int j < ?M" using lin j(2) by linarith
      qed
      finally have p: "og + ?p = en + int j" by simp
      have "store m en d (og + ?p) = d ! j"
        unfolding p using j(2) by (simp add: store_def)
      moreover have "\<not> i < nat ?occ" using False by (simp add: zless_nat_eq_int_zless)
      then have "(ring_contents og sz st en m @ d) ! i = d ! j"
        by (simp add: nth_append j_def)
      ultimately show ?thesis using lhs by simp
    qed
  qed
qed

lemma read_transfer_fifo:
  assumes inv: "ring_inv s" and ok: "count \<le> ubuf"
    and n: "count \<le> occupied s"
    and lin: "start s - orig s + int count \<le> scull_fifo_size s + 1"
  shows "fst (snd (read_transfer ubuf count s)) @ contents (snd (snd (read_transfer ubuf count s))) =
         contents s \<and> ring_inv (snd (snd (read_transfer ubuf count s)))"
proof -
  have sz: "0 \<le> scull_fifo_size s" and st: "orig s \<le> start s"
    using inv by (simp_all add: ring_inv_def)
  have n': "int count \<le> (end' s - start s) mod (scull_fifo_size s + 1)"
    using n mod_range(1) [OF sz, of "end' s - start s"] by (simp add: occupied_def le_nat_iff)
  have adv: "advance (orig s) (scull_fifo_size s) count (start s) =
             orig s + (start s - orig s + int count) mod (scull_fifo_size s + 1)"
    using inv by (simp add: advance_mod ring_inv_def)
  have a: "fetch (kmem s) (start s) count = take count (contents s)"
    unfolding contents_def by (rule ring_contents_read(1) [OF sz st n' lin])
  have b: "ring_contents (orig s) (scull_fifo_size s)
             (advance (orig s) (scull_fifo_size s) count (start s)) (end' s) (kmem s) =
           drop count (contents s)"
    unfolding contents_def adv by (rule ring_contents_read(2) [OF sz st n' lin])
  have c: "contents (snd (snd (read_transfer ubuf count s))) = drop count (contents s)"
    using ok b [symmetric] by (simp add: read_transfer_result Let_def contents_def)
  have d: "fst (snd (read_transfer ubuf count s)) = take count (contents s)"
    using ok a by (simp add: read_transfer_result)
  have e: "ring_inv (snd (snd (read_transfer ubuf count s)))"
    using ok inv ring_inv_mod [OF sz]
    by (simp add: read_transfer_result Let_def ring_inv_def adv)
  show ?thesis using c d e by simp
qed

lemma write_transfer_fifo:
  assumes inv: "ring_inv s" and ok: "n \<le> length buf"
    and room: "int (occupied s) + int n \<le> scull_fifo_size s"
    and lin: "end' s - orig s + int n \<le> scull_fifo_size s + 1"
  shows "contents (snd (write_transfer buf n s)) = contents s @ take n buf \<and>
         ring_inv (snd (write_transfer buf n s))"
proof -
  have sz: "0 \<le> scull_fifo_size s" and st: "orig s \<le> start s" and en: "orig s \<le> end' s"
    using inv by (simp_all add: ring_inv_def)
  have len: "length (take n buf) = n" using ok by simp
  have room': "(end' s - start s) mod (scull_fifo_size s + 1) + int (length (take n buf)) \<le> scull_fifo_size s"
    using room mod_range(1) [OF sz, of "end' s - start s"] unfolding len
    by (simp add: occupied_def)
  have lin': "end' s - orig s + int (length (take n buf)) \<le> scull_fifo_size s + 1"
    using lin unfolding len .
  have adv: "advance (orig s) (scull_fifo_size s) n (end' s) =
             orig s + (end' s - orig s + int (length (take n buf))) mod (scull_fifo_size s + 1)"
    using inv unfolding len by (simp add: advance_mod ring_inv_def)
  have b: "ring_contents (orig s) (scull_fifo_size s) (start s)
             (advance (orig s) (scull_fifo_size s) n (end' s))
             (store (kmem s) (end' s) (take n buf)) = contents s @ take n buf"
    unfolding contents_def adv by (rule ring_contents_write [OF sz st en room' lin'])
  have c: "contents (snd (write_transfer buf n s)) = contents s @ take n buf"
    using ok b by (simp add: write_transfer_result Let_def contents_def)
  have e: "ring_inv (snd (write_transfer buf n s))"
    using ok inv ring_inv_mod [OF sz]
    by (simp add: write_transfer_result Let_def ring_inv_def adv)
  show ?thesis using c e by simp
qed

lemma exec_fifo:
  assumes inv: "ring_inv s" and fit: "fits c s" and ex: "exec c s = Some (out1, in1, t)"
  shows "ring_inv t \<and> out1 @ contents t = contents s @ in1"
proof (cases c)
  case (Read_call h1 h2 h3 ubuf count)
  from ex obtain s1 where rd: "read_entry (serial h1 h2 h3) s = Some s1"
    by (auto simp: Read_call scull_read_def)
  note rs = read_entry_serial_ring [OF rd]
  have res: "out1 = (case fst (read_transfer ubuf count s1) of Inl e \<Rightarrow> [] | Inr n \<Rightarrow> fst (snd (read_transfer ubuf count s1)))"
    "in1 = []" "t = snd (snd (read_transfer ubuf count s1))"
    using ex by (auto simp: Read_call scull_read_via_entry [OF rd] split_beta)
  have i1: "ring_inv s1" using inv ring_inv_cong [OF rs] by simp
  show ?thesis
  proof (cases "count \<le> ubuf")
    case True
    with fit have f: "count \<le> occupied s1"
      "start s1 - orig s1 + int count \<le> scull_fifo_size s1 + 1"
      using ring_ofD [OF rs] occupied_cong [OF rs] by (simp_all add: Read_call)
    have "fst (read_transfer ubuf count s1) = Inr count"
      using True by (simp add: read_transfer_result)
    with read_transfer_fifo [OF i1 True f] contents_cong [OF rs] res
    show ?thesis by simp
  next
    case False
    then have "fst (read_transfer ubuf count s1) = Inl EFAULT"
      by (simp add: read_transfer_result)
    moreover have "ring_of t = ring_of s"
      using False ring_of_read_fault [of ubuf count s1] rs res(3) by simp
    ultimately show ?thesis
      using res inv contents_cong [of t s] ring_inv_cong [of t s] by simp
  qed
next
  case (Write_call h1 h2 h3 buf count)
  from ex obtain s1 where wr: "write_entry (serial h1 h2 h3) s = Some s1"
    by (auto simp: Write_call scull_write_def)
  note rs = write_entry_serial_ring [OF wr]
  let ?n = "capped s count"
  have res: "in1 = (case fst (write_transfer buf ?n s1) of Inl e \<Rightarrow> [] | Inr n \<Rightarrow> take n buf)"
    "out1 = []" "t = snd (write_transfer buf ?n s1)"
    using ex by (auto simp: Write_call scull_write_via_entry [OF wr] split_beta)
  have i1: "ring_inv s1" using inv ring_inv_cong [OF rs] by simp
  show ?thesis
  proof (cases "?n \<le> length buf")
    case True
    with fit have f: "int (occupied s1) + int ?n \<le> scull_fifo_size s1"
      "end' s1 - orig s1 + int ?n \<le> scull_fifo_size s1 + 1"
      using ring_ofD [OF rs] occupied_cong [OF rs] by (simp_all add: Write_call)
    have "fst (write_transfer buf ?n s1) = Inr ?n"
      using True by (simp add: write_transfer_result)
    with write_transfer_fifo [OF i1 True f] contents_cong [OF rs] res
    show ?thesis by simp
  next
    case False
    then have "fst (write_transfer buf ?n s1) = Inl EFAULT"
      by (simp add: write_transfer_result)
    moreover have "ring_of t = ring_of s"
      using False ring_of_write_fault [of buf ?n s1] rs res(3) by simp
    ultimately show ?thesis
      using res inv contents_cong [of t s] ring_inv_cong [of t s] by simp
  qed
qed

lemma run_fifo:
  "ring_inv s \<Longrightarrow> all_fit cs s \<Longrightarrow> run cs s = Some (outs, ins, t) \<Longrightarrow>
   ring_inv t \<and> outs @ contents t = contents s @ ins"
proof (induction cs arbitrary: s outs ins t)
  case Nil
  then show ?case by simp
next
  case (Cons c cs)
  from Cons.prems(3) obtain out1 in1 s1 out2 in2 where
    ex: "exec c s = Some (out1, in1, s1)" and
    rn: "run cs s1 = Some (out2, in2, t)" and
    eq: "outs = out1 @ out2" "ins = in1 @ in2"
    by (auto split: option.splits)
  from Cons.prems(2) ex have fit: "fits c s" and rest: "all_fit cs s1" by simp_all
  from exec_fifo [OF Cons.prems(1) fit ex]
  have i1: "ring_inv s1" and c1: "out1 @ contents s1 = contents s @ in1" by simp_all
  from Cons.IH [OF i1 rest rn]
  have "ring_inv t" and c2: "out2 @ contents t = contents s1 @ in2" by simp_all
  moreover have "outs @ contents t = contents s @ ins"
  proof -
    have "outs @ contents t = out1 @ (out2 @ contents t)" using eq by simp
    also have "\<dots> = (out1 @ contents s1) @ in2" using c2 by simp
    also have "\<dots> = contents s @ ins" using c1 eq by simp
    finally show ?thesis .
  qed
  ultimately show ?case by simp
qed

lemma contents_empty: "start s = end' s \<Longrightarrow> contents s = []"
  by (simp add: contents_def ring_contents_def)

subsection \<open>Evaluation on concrete inputs\<close>

lemma advance_numeral [simp]:
  "advance og sz (numeral k) p = advance og sz (pred_numeral k) (if sz \<le> p - og then og else p + 1)"
  by (simp add: numeral_eq_Suc)

lemma advance_1 [simp]: "advance og sz 1 p = (if sz \<le> p - og then og else p + 1)"
  using advance.simps(2) [of og sz 0 p] by simp

lemma fetch_0: "fetch m a 0 = []"
  by (simp add: fetch_def)

lemma fetch_Suc: "fetch m a (Suc n) = m a # fetch m (a + 1) n"
proof -
  have "[0..<Suc n] = 0 # map Suc [0..<n]"
    by (simp add: upt_conv_Cons map_Suc_upt del: upt_Suc)
  then show ?thesis
    by (simp add: fetch_def comp_def algebra_simps del: upt_Suc)
qed

lemma fetch_numeral:
  "fetch m a (numeral k) = m a # fetch m (a + 1) (pred_numeral k)"
  by (simp add: numeral_eq_Suc fetch_Suc)

lemmas env_defs = serial_def alone_def

lemmas eval_defs =
  scull_read_def scull_write_def read_entry_def write_entry_def acquire_cases env_defs
  fifo10_def read_transfer_result write_transfer_result capped_def to_size_t_def
  printk_def up_def occupied_def store_def fetch_0 fetch_Suc fetch_numeral

section \<open>FIFO order\<close>

text \<open>
  C1, amended. As stated the claim fails (the counterexample follows): a read hands out
  as many bytes as it was asked for, whatever the ring holds. It holds for calls that
  run one at a time when every transfer fits. Start from a ring whose cursors lie in it
  and coincide, so that it is empty, and run any list of reads and writes each of which
  returns and fits the state it starts from. Then the bytes that the successful reads
  handed out, followed by the bytes still in the ring, are exactly the bytes that the
  successful writes took in, in the same order: what was read is a prefix of what was
  written.
\<close>

theorem fifo_when_transfers_fit:
  assumes "ring_inv s" and "start s = end' s" and "all_fit cs s"
    and "run cs s = Some (outs, ins, t)"
  shows "prefix outs ins \<and> outs @ contents t = ins"
  using run_fifo [OF assms(1,3,4)] contents_empty [OF assms(2)]
  by (auto simp: prefix_def)

text \<open>
  The theorem on a run that crosses the end of the ring: from the empty ring with both
  cursors at offset 9, two bytes are written to offsets 9 and 10, the cursor wraps to
  0, and three reads of one byte return 1, 2 and 3 in the order written.
\<close>

theorem fifo_when_transfers_fit_witness:
  "ring_inv (fifo10 9 9) \<and> start (fifo10 9 9) = end' (fifo10 9 9) \<and>
   all_fit wrap_calls (fifo10 9 9) \<and>
   map_option (\<lambda>(outs, ins, t). (outs, ins, start t, end' t)) (run wrap_calls (fifo10 9 9)) =
     Some ([1, 2, 3], [1, 2, 3], 1, 1) \<and>
   prefix [1, 2, 3 :: byte] [1, 2, 3]"
proof -
  have i: "ring_inv (fifo10 9 9)" by (simp add: ring_inv_def fifo10_def)
  have e: "start (fifo10 9 9) = end' (fifo10 9 9)" by (simp add: fifo10_def)
  have f: "all_fit wrap_calls (fifo10 9 9)"
    by (simp add: wrap_calls_def eval_defs)
  have r: "map_option (\<lambda>(outs, ins, t). (outs, ins, start t, end' t)) (run wrap_calls (fifo10 9 9)) =
     Some ([1, 2, 3], [1, 2, 3], 1, 1)"
    by (simp add: wrap_calls_def eval_defs)
  then obtain t where t: "run wrap_calls (fifo10 9 9) = Some ([1, 2, 3], [1, 2, 3], t)"
    by auto
  from fifo_when_transfers_fit [OF i e f t] have "prefix [1, 2, 3 :: byte] [1, 2, 3]" by simp
  with i e f r show ?thesis by simp
qed

text \<open>
  C1 as stated, refuted. One byte is written to the empty ring and then a read of two
  bytes succeeds: it hands out the byte written and the byte next to it in memory,
  which nobody wrote, so the bytes read are not a prefix of the bytes written.
\<close>

theorem fifo_fails_on_over_read_counterexample:
  "map_option (\<lambda>(outs, ins, t). (outs, ins, prefix outs ins)) (run over_read_calls (fifo10 0 0)) =
   Some ([1, 0], [1], False)"
  by (simp add: over_read_calls_def eval_defs)

section \<open>The count a read returns\<close>

text \<open>
  C2, amended. A read that gets past its waits returns exactly the count it was asked
  for, and hands the user that many bytes, whenever the user buffer takes them; it
  returns \<open>EFAULT\<close> otherwise. The occupied length plays no part: nothing clamps the
  request to it.
\<close>

theorem read_returns_requested:
  assumes "read_entry env s = Some s1"
  shows "map_option (\<lambda>(r, out, t). (r, length out)) (scull_read env ubuf count s) =
         Some (if count \<le> ubuf then (Inr count, count) else (Inl EFAULT, 0))"
  by (simp add: scull_read_via_entry [OF assms] read_transfer_result)

theorem read_returns_requested_witness:
  "read_entry (serial Woken Woken Woken) (fifo10 0 3) = Some ((fifo10 0 3)\<lparr>lock := 0\<rparr>) \<and>
   map_option (\<lambda>(r, out, t). (r, length out))
     (scull_read (serial Woken Woken Woken) 100 100 (fifo10 0 3)) = Some (Inr 100, 100)"
proof -
  have h: "read_entry (serial Woken Woken Woken) (fifo10 0 3) = Some ((fifo10 0 3)\<lparr>lock := 0\<rparr>)"
    by (simp add: read_entry_def acquire_cases env_defs fifo10_def)
  show ?thesis
    using h read_returns_requested [OF h, of 100 100] by simp
qed

text \<open>
  C2 as stated, refuted: with 3 bytes occupied in a ring of capacity 10, a read of 100
  bytes returns 100.
\<close>

theorem read_over_occupied_counterexample:
  "occupied (fifo10 0 3) = 3 \<and> scull_fifo_size (fifo10 0 3) = 10 \<and>
   map_option fst (scull_read (serial Woken Woken Woken) 100 100 (fifo10 0 3)) = Some (Inr 100)"
  by (simp add: scull_read_def read_entry_def acquire_cases env_defs fifo10_def
      read_transfer_result occupied_def)

section \<open>When a write waits\<close>

text \<open>
  C3. The write path at two inputs where the test \<open>end - start == 1 || end - start ==
  scull_fifo_size\<close> and the fill of the ring disagree. With one byte queued in a ring of
  ten (\<open>start = 0\<close>, \<open>end = 1\<close>) the write takes the waiting branch: it logs
  \<open>Queue full, going to sleep\<close> and sleeps on \<open>queue_full\<close>, for ever unless a signal
  ends the sleep. With the ring wrapped and all ten bytes queued (\<open>start = 5\<close>,
  \<open>end = 4\<close>) it does not wait: it copies into the one slot left and moves \<open>end\<close> onto
  \<open>start\<close>, after which the full ring reads as empty.
\<close>

theorem write_wait_test_at_failing_inputs:
  "occupied (fifo10 0 1) = 1 \<and>
   map_option klog (write_entry (serial Woken Signalled Woken) (fifo10 0 1)) =
     Some [''Queue full, going to sleep'', no_queue_full] \<and>
   write_entry (serial Woken Woken Woken) (fifo10 0 1) = None \<and>
   occupied (fifo10 5 4) = 10 \<and>
   write_entry (serial Woken Woken Woken) (fifo10 5 4) = Some ((fifo10 5 4)\<lparr>lock := 0\<rparr>) \<and>
   map_option (\<lambda>(r, t). (r, start t, end' t, kmem t 4))
     (scull_write (serial Woken Woken Woken) [7] 1 (fifo10 5 4)) = Some (Inr 1, 5, 5, 7)"
  by (simp add: scull_write_def write_entry_def acquire_cases
      env_defs fifo10_def write_transfer_result capped_def to_size_t_def
      printk_def up_def occupied_def store_def)

section \<open>The guard is tested once\<close>




section \<open>The cursors stay in the ring\<close>

text \<open>
  C5, amended. As stated the claim fails: a cursor can stand at offset
  \<open>scull_fifo_size\<close> itself, and the advance is modulo \<open>scull_fifo_size + 1\<close>. What
  holds, for a call during which no other thread runs: if both cursors lie between
  \<open>orig\<close> and \<open>orig + scull_fifo_size\<close>, both ends included, they do so again after
  every read and every write that returns; a successful read moves \<open>start\<close>, and a
  successful write \<open>end\<close>, forward by the transferred count modulo
  \<open>scull_fifo_size + 1\<close>, wrapping back to \<open>orig\<close>; the other cursor, and both cursors
  when the copy faults, stay where they were.
\<close>

theorem cursors_stay_in_ring:
  assumes inv: "ring_inv s"
    and rd: "read_entry (serial h1 h2 h3) s = Some s1"
    and wr: "write_entry (serial k1 k2 k3) s = Some s2"
  shows "map_option (\<lambda>(r, out, t). (ring_inv t, start t, end' t))
           (scull_read (serial h1 h2 h3) ubuf count s) =
         Some (True,
               (if count \<le> ubuf
                then orig s + (start s - orig s + int count) mod (scull_fifo_size s + 1)
                else start s),
               end' s) \<and>
         map_option (\<lambda>(r, t). (ring_inv t, start t, end' t))
           (scull_write (serial k1 k2 k3) buf n s) =
         Some (True, start s,
               (if capped s n \<le> length buf
                then orig s + (end' s - orig s + int (capped s n)) mod (scull_fifo_size s + 1)
                else end' s))"
proof -
  note r1 = ring_ofD [OF read_entry_serial_ring [OF rd]]
  note r2 = ring_ofD [OF write_entry_serial_ring [OF wr]]
  have i1: "ring_inv s1" using inv ring_inv_cong [OF read_entry_serial_ring [OF rd]] by simp
  have i2: "ring_inv s2" using inv ring_inv_cong [OF write_entry_serial_ring [OF wr]] by simp
  have a1: "advance (orig s) (scull_fifo_size s) count (start s) =
            orig s + (start s - orig s + int count) mod (scull_fifo_size s + 1)"
    using inv by (simp add: advance_mod ring_inv_def)
  have a2: "advance (orig s) (scull_fifo_size s) (capped s n) (end' s) =
            orig s + (end' s - orig s + int (capped s n)) mod (scull_fifo_size s + 1)"
    using inv by (simp add: advance_mod ring_inv_def)
  have sz: "0 \<le> scull_fifo_size s" using inv by (simp add: ring_inv_def)
  have "map_option (\<lambda>(r, out, t). (ring_inv t, start t, end' t))
           (scull_read (serial h1 h2 h3) ubuf count s) =
         Some (True,
               (if count \<le> ubuf
                then orig s + (start s - orig s + int count) mod (scull_fifo_size s + 1)
                else start s),
               end' s)"
    using i1 r1 ring_inv_mod [OF sz]
    by (simp add: scull_read_via_entry [OF rd] read_transfer_result a1 Let_def ring_inv_def)
  moreover have "map_option (\<lambda>(r, t). (ring_inv t, start t, end' t))
           (scull_write (serial k1 k2 k3) buf n s) =
         Some (True, start s,
               (if capped s n \<le> length buf
                then orig s + (end' s - orig s + int (capped s n)) mod (scull_fifo_size s + 1)
                else end' s))"
    using i2 r2 ring_inv_mod [OF sz]
    by (simp add: scull_write_via_entry [OF wr] write_transfer_result a2 Let_def ring_inv_def)
  ultimately show ?thesis by simp
qed

theorem cursors_stay_in_ring_witness:
  "ring_inv (fifo10 8 3) \<and>
   read_entry (serial Woken Woken Woken) (fifo10 8 3) = Some ((fifo10 8 3)\<lparr>lock := 0\<rparr>) \<and>
   write_entry (serial Woken Woken Woken) (fifo10 8 3) = Some ((fifo10 8 3)\<lparr>lock := 0\<rparr>) \<and>
   map_option (\<lambda>(r, out, t). (ring_inv t, start t, end' t))
     (scull_read (serial Woken Woken Woken) 3 3 (fifo10 8 3)) = Some (True, 0, 3) \<and>
   map_option (\<lambda>(r, t). (ring_inv t, start t, end' t))
     (scull_write (serial Woken Woken Woken) [1, 2] 2 (fifo10 8 3)) = Some (True, 8, 5)"
proof -
  have i: "ring_inv (fifo10 8 3)" by (simp add: ring_inv_def fifo10_def)
  have r: "read_entry (serial Woken Woken Woken) (fifo10 8 3) = Some ((fifo10 8 3)\<lparr>lock := 0\<rparr>)"
    by (simp add: read_entry_def acquire_cases env_defs fifo10_def)
  have w: "write_entry (serial Woken Woken Woken) (fifo10 8 3) = Some ((fifo10 8 3)\<lparr>lock := 0\<rparr>)"
    by (simp add: write_entry_def acquire_cases env_defs fifo10_def)
  have t: "capped (fifo10 8 3) 2 = 2" by (simp add: capped_def to_size_t_def fifo10_def)
  show ?thesis
    using i r w cursors_stay_in_ring [OF i r w, of 3 3 "[1, 2]" 2] t
    by (simp add: fifo10_def)
qed

text \<open>
  C5 as stated, refuted. In a ring of capacity 10, a read of one byte with \<open>start\<close> at
  offset 9 leaves it at offset 10, outside \<open>[0, capacity)\<close>; and a read of three bytes
  with \<open>start\<close> at offset 8 leaves it at offset 0, where advancing modulo the capacity
  would give 1.
\<close>

theorem cursor_reaches_capacity_counterexample:
  "scull_fifo_size (fifo10 9 3) = 10 \<and>
   map_option (\<lambda>(r, out, t). start t - orig t)
     (scull_read (serial Woken Woken Woken) 1 1 (fifo10 9 3)) = Some 10 \<and>
   map_option (\<lambda>(r, out, t). start t - orig t)
     (scull_read (serial Woken Woken Woken) 3 3 (fifo10 8 3)) = Some 0"
  by (simp add: scull_read_def read_entry_def acquire_cases env_defs fifo10_def
      read_transfer_result)

section \<open>A failed copy changes nothing in the ring\<close>

text \<open>
  C6. When the copy step fails (the user buffer takes fewer bytes than the read copies
  out, or holds fewer than the write copies in), the call returns \<open>EFAULT\<close>, hands out
  nothing, and the ring is exactly as it was before the call: both cursors, \<open>orig\<close>,
  the two parameters and all of the memory. A later call therefore finds the buffer
  as the failed call found it. This is for a call during which no other thread runs
  and which gets past its waits.
\<close>

theorem fault_leaves_ring:
  assumes rd: "read_entry (serial h1 h2 h3) s = Some s1" and "ubuf < count"
    and wr: "write_entry (serial k1 k2 k3) s' = Some s2" and "length buf < capped s' n"
  shows "map_option (\<lambda>(r, out, t). (r, out, ring_of t))
           (scull_read (serial h1 h2 h3) ubuf count s) = Some (Inl EFAULT, [], ring_of s) \<and>
         map_option (\<lambda>(r, t). (r, ring_of t))
           (scull_write (serial k1 k2 k3) buf n s') = Some (Inl EFAULT, ring_of s')"
proof -
  have "ring_of (snd (snd (read_transfer ubuf count s1))) = ring_of s"
    using ring_of_read_fault [OF assms(2)] read_entry_serial_ring [OF rd] by simp
  moreover have "ring_of (snd (write_transfer buf (capped s' n) s2)) = ring_of s'"
    using ring_of_write_fault [OF assms(4)] write_entry_serial_ring [OF wr] by simp
  moreover have "fst (read_transfer ubuf count s1) = Inl EFAULT"
    "fst (snd (read_transfer ubuf count s1)) = []"
    "fst (write_transfer buf (capped s' n) s2) = Inl EFAULT"
    using assms(2,4) by (simp_all add: read_transfer_result write_transfer_result)
  ultimately show ?thesis
    by (simp add: scull_read_via_entry [OF rd] scull_write_via_entry [OF wr] split_beta)
qed

theorem fault_leaves_ring_witness:
  "read_entry (serial Woken Woken Woken) (fifo10 0 3) = Some ((fifo10 0 3)\<lparr>lock := 0\<rparr>) \<and>
   (2 :: nat) < 3 \<and>
   write_entry (serial Woken Woken Woken) (fifo10 0 3) = Some ((fifo10 0 3)\<lparr>lock := 0\<rparr>) \<and>
   length [1 :: byte] < capped (fifo10 0 3) 2 \<and>
   map_option (\<lambda>(r, out, t). (r, out, ring_of t))
     (scull_read (serial Woken Woken Woken) 2 3 (fifo10 0 3)) =
     Some (Inl EFAULT, [], ring_of (fifo10 0 3)) \<and>
   map_option (\<lambda>(r, t). (r, ring_of t))
     (scull_write (serial Woken Woken Woken) [1] 2 (fifo10 0 3)) =
     Some (Inl EFAULT, ring_of (fifo10 0 3))"
proof -
  have r: "read_entry (serial Woken Woken Woken) (fifo10 0 3) = Some ((fifo10 0 3)\<lparr>lock := 0\<rparr>)"
    by (simp add: read_entry_def acquire_cases env_defs fifo10_def)
  have w: "write_entry (serial Woken Woken Woken) (fifo10 0 3) = Some ((fifo10 0 3)\<lparr>lock := 0\<rparr>)"
    by (simp add: write_entry_def acquire_cases env_defs fifo10_def)
  have c: "length [1 :: byte] < capped (fifo10 0 3) 2"
    by (simp add: capped_def to_size_t_def fifo10_def)
  have u: "(2 :: nat) < 3" by simp
  show ?thesis
    using r w c fault_leaves_ring [OF r u w c] by simp
qed

section \<open>Truncation to the element size\<close>

text \<open>
  C7. A write that supplies \<open>scull_fifo_elemsz + k\<close> bytes with \<open>k > 0\<close> (the parameter
  being a non-negative \<open>int\<close>) and gets past its waits returns \<open>scull_fifo_elemsz\<close>,
  stores exactly the first \<open>scull_fifo_elemsz\<close> bytes of the user data from the tail on
  and leaves the rest of the memory alone, and moves the tail by \<open>scull_fifo_elemsz\<close>
  steps of the cursor loop.
\<close>

theorem write_truncates:
  assumes e: "0 \<le> scull_fifo_elemsz s" "scull_fifo_elemsz s < 2 ^ 31"
    and k: "0 < k" and c: "count = nat (scull_fifo_elemsz s) + k"
    and b: "length buf = count"
    and wr: "write_entry env s = Some s1"
  shows "map_option (\<lambda>(r, t). (r, end' t, kmem t, fetch (kmem t) (end' s1) (nat (scull_fifo_elemsz s))))
           (scull_write env buf count s) =
         Some (Inr (nat (scull_fifo_elemsz s)),
               advance (orig s1) (scull_fifo_size s1) (nat (scull_fifo_elemsz s)) (end' s1),
               store (kmem s1) (end' s1) (take (nat (scull_fifo_elemsz s)) buf),
               take (nat (scull_fifo_elemsz s)) buf)"
proof -
  let ?e = "nat (scull_fifo_elemsz s)"
  have cap: "capped s count = ?e" unfolding c by (rule capped_over [OF e k])
  have le: "?e \<le> length buf" using b c by simp
  then have len: "length (take ?e buf) = ?e" by simp
  have "fetch (store (kmem s1) (end' s1) (take ?e buf)) (end' s1) ?e = take ?e buf"
    using fetch_store [of "kmem s1" "end' s1" "take ?e buf"] len by simp
  then show ?thesis
    using le by (simp add: scull_write_via_entry [OF wr] cap write_transfer_result Let_def)
qed

theorem write_truncates_witness:
  "(0 :: int) \<le> scull_fifo_elemsz (fifo10 0 3) \<and> scull_fifo_elemsz (fifo10 0 3) < 2 ^ 31 \<and>
   (0 :: nat) < 2 \<and> (6 :: nat) = nat (scull_fifo_elemsz (fifo10 0 3)) + 2 \<and>
   length [1, 2, 3, 4, 5, 6 :: byte] = 6 \<and>
   write_entry (serial Woken Woken Woken) (fifo10 0 3) = Some ((fifo10 0 3)\<lparr>lock := 0\<rparr>) \<and>
   map_option (\<lambda>(r, t). (r, end' t, fetch (kmem t) 3 4))
     (scull_write (serial Woken Woken Woken) [1, 2, 3, 4, 5, 6] 6 (fifo10 0 3)) =
     Some (Inr 4, 7, [1, 2, 3, 4])"
proof -
  have w: "write_entry (serial Woken Woken Woken) (fifo10 0 3) = Some ((fifo10 0 3)\<lparr>lock := 0\<rparr>)"
    by (simp add: write_entry_def acquire_cases env_defs fifo10_def)
  have e: "(0 :: int) \<le> scull_fifo_elemsz (fifo10 0 3)" "scull_fifo_elemsz (fifo10 0 3) < 2 ^ 31"
    by (simp_all add: fifo10_def)
  have k: "(0 :: nat) < 2" by simp
  have c: "(6 :: nat) = nat (scull_fifo_elemsz (fifo10 0 3)) + 2" by (simp add: fifo10_def)
  have b: "length [1, 2, 3, 4, 5, 6 :: byte] = 6" by simp
  have "map_option (\<lambda>(r, t). (r, end' t, fetch (kmem t) 3 4))
     (scull_write (serial Woken Woken Woken) [1, 2, 3, 4, 5, 6] 6 (fifo10 0 3)) =
     Some (Inr 4, 7, [1, 2, 3, 4])"
    using write_truncates [OF e k c b w]
    by (auto simp: fifo10_def)
  with w e k c b show ?thesis by simp
qed

section \<open>Interrupted waits\<close>

text \<open>
  C8, amended. As stated the claim fails: no path of either operation returns an
  interruption error. What holds: when a signal ends every sleep of a call, each
  acquisition that had to sleep appends its message to the log and execution goes on
  without the permit (for \<open>lock\<close>: the count is taken when it is positive, and otherwise
  only the log changes); the call always returns, and what it returns is what the
  transfer gives, the byte count or \<open>EFAULT\<close>.
\<close>

theorem interrupted_wait_goes_on:
  assumes sg: "how (at_lock env) = Signalled" "how (at_queue env) = Signalled"
    "how (at_relock env) = Signalled"
  shows "acquire Lock no_lock (at_lock env) s =
           Some (if 0 < lock s then s\<lparr>lock := lock s - 1\<rparr>
                 else printk no_lock (others (at_lock env) s)) \<and>
         map_option fst (scull_read env ubuf count s) =
           Some (if count \<le> ubuf then Inr count else Inl EFAULT) \<and>
         map_option fst (scull_write env buf n s) =
           Some (if capped s n \<le> length buf then Inr (capped s n) else Inl EFAULT)"
proof -
  obtain s1 where rd: "read_entry env s = Some s1"
    using read_entry_signalled [OF sg, of s] by auto
  obtain s2 where wr: "write_entry env s = Some s2"
    using write_entry_signalled [OF sg, of s] by auto
  show ?thesis
    using sg(1)
    by (simp add: scull_read_via_entry [OF rd] scull_write_via_entry [OF wr]
        read_transfer_result write_transfer_result acquire_cases)
qed

theorem interrupted_wait_goes_on_witness:
  "how (at_lock (serial Signalled Signalled Signalled)) = Signalled \<and>
   how (at_queue (serial Signalled Signalled Signalled)) = Signalled \<and>
   how (at_relock (serial Signalled Signalled Signalled)) = Signalled \<and>
   acquire Lock no_lock (at_lock (serial Signalled Signalled Signalled)) ((fifo10 0 0)\<lparr>lock := 0\<rparr>) =
     Some ((fifo10 0 0)\<lparr>lock := 0, klog := [no_lock]\<rparr>) \<and>
   map_option fst (scull_read (serial Signalled Signalled Signalled) 1 1 ((fifo10 0 0)\<lparr>lock := 0\<rparr>)) =
     Some (Inr 1) \<and>
   map_option fst (scull_write (serial Signalled Signalled Signalled) [1] 1 ((fifo10 0 0)\<lparr>lock := 0\<rparr>)) =
     Some (Inr 1)"
proof -
  have sg: "how (at_lock (serial Signalled Signalled Signalled)) = Signalled"
    "how (at_queue (serial Signalled Signalled Signalled)) = Signalled"
    "how (at_relock (serial Signalled Signalled Signalled)) = Signalled"
    by (simp_all add: env_defs)
  show ?thesis
    using sg interrupted_wait_goes_on [OF sg, of "(fifo10 0 0)\<lparr>lock := 0\<rparr>" 1 1 "[1]" 1]
    by (simp add: fifo10_def capped_def to_size_t_def env_defs printk_def)
qed

text \<open>
  C8 as stated, refuted. \<open>lock\<close> is held elsewhere and the ring is empty; a signal
  interrupts the wait for \<open>lock\<close> and then the wait for \<open>queue_empty\<close>. The read logs
  both failures, copies all the same and returns 1.
\<close>

theorem interrupted_read_succeeds_counterexample:
  "lock ((fifo10 0 0)\<lparr>lock := 0\<rparr>) = 0 \<and>
   map_option (\<lambda>(r, out, t). (r, klog t))
     (scull_read (serial Signalled Signalled Signalled) 1 1 ((fifo10 0 0)\<lparr>lock := 0\<rparr>)) =
   Some (Inr 1, [no_lock, no_queue_empty, ''scull read\<newline>''])"
  by (simp add: scull_read_def read_entry_def acquire_cases env_defs fifo10_def
      read_transfer_result printk_def up_def)

section \<open>Posting the other side\<close>

text \<open>
  C9. The code at the failing inputs, and at every input. The posts stand under
  \<open>if (queue_full.count < 0)\<close> and \<open>if (queue_empty.count < 0)\<close>, and the count is
  unsigned, so they are never made: whatever the state and the arguments, the read
  transfer leaves \<open>queue_full\<close> and the write transfer leaves \<open>queue_empty\<close> as they
  were. With both signals at 0, where \<open>scull_init_module\<close> puts them, a successful write
  of one byte returns 1 and leaves \<open>queue_empty\<close> at 0, and a successful read of one
  byte returns 1 and leaves \<open>queue_full\<close> at 0; the same holds at the largest count,
  4294967295, which would read as -1 if the count were signed.
\<close>

theorem no_post_after_success:
  "queue_full (snd (snd (read_transfer ubuf count s))) = queue_full s \<and>
   queue_empty (snd (write_transfer buf n s)) = queue_empty s \<and>
   queue_empty (fifo10 0 0) = 0 \<and>
   map_option (\<lambda>(r, t). (r, queue_empty t))
     (scull_write (serial Woken Woken Woken) [1] 1 (fifo10 0 0)) = Some (Inr 1, 0) \<and>
   queue_full (fifo10 0 3) = 0 \<and>
   map_option (\<lambda>(r, out, t). (r, queue_full t))
     (scull_read (serial Woken Woken Woken) 1 1 (fifo10 0 3)) = Some (Inr 1, 0) \<and>
   map_option (\<lambda>(r, t). (r, queue_empty t))
     (scull_write (serial Woken Woken Woken) [1] 1 ((fifo10 0 0)\<lparr>queue_empty := 4294967295\<rparr>)) =
     Some (Inr 1, 4294967295) \<and>
   map_option (\<lambda>(r, out, t). (r, queue_full t))
     (scull_read (serial Woken Woken Woken) 1 1 ((fifo10 0 3)\<lparr>queue_full := 4294967295\<rparr>)) =
     Some (Inr 1, 4294967295)"
  by (simp add: scull_read_def scull_write_def read_entry_def write_entry_def acquire_cases
      env_defs fifo10_def read_transfer_result write_transfer_result capped_def to_size_t_def)

section \<open>The control query\<close>

text \<open>
  C10. For every command word and argument, whatever the constants of \<open>scull.h\<close> and
  the access check are, \<open>scull_ioctl\<close> leaves the whole driver state as it was (the
  cursors, the memory, the three semaphore counts and the parameters), and its result
  is the configured element size, \<open>ENOTTY\<close> or \<open>EFAULT\<close>.
\<close>

theorem scull_ioctl_frame:
  "snd (scull_ioctl h ok cmd arg s) = s \<and>
   (fst (scull_ioctl h ok cmd arg s) = Inr (scull_fifo_elemsz s) \<or>
    fst (scull_ioctl h ok cmd arg s) = Inl ENOTTY \<or>
    fst (scull_ioctl h ok cmd arg s) = Inl EFAULT)"
  by (simp add: scull_ioctl_def Let_def)

end
